theory Spec2Isabelle
  imports Main "HOL-Library.Word" "HOL-Library.Char_ord" "HOL-Library.List_Lexorder"
begin

section \<open>Qt values used by \<open>tmongoobject.cpp\<close>\<close>

text \<open>
  \<open>TMongoObject\<close> is a \<open>QObject\<close> (typed properties, read and written by name through
  the meta-object) that also inherits \<open>QVariantMap\<close> (the BSON document). Both hold
  \<open>QVariant\<close> values. The variant kinds modelled are the ones the file itself produces or
  inspects: the invalid variant, \<open>bool\<close>, \<open>int\<close> (32 bits, two's complement),
  \<open>QString\<close> and \<open>QDateTime\<close> (milliseconds since the epoch). Floating point variants
  are left out. Strings are Latin-1, as the \<open>QLatin1String\<close> and \<open>toLatin1\<close>
  conversions of the file take them.
\<close>

type_synonym datetime = int

datatype variant =
    VInvalid
  | VBool bool
  | VInt "32 word"
  | VString string
  | VDateTime datetime

subsection \<open>Characters and byte arrays\<close>

text \<open>
  \<open>QChar::isUpper\<close>, \<open>QChar::toLower\<close> and \<open>QByteArray::toLower\<close> on the letters of
  C++ identifiers (class and property names): \<open>A\<close>..\<open>Z\<close> are upper case, and
  lower-casing adds 32 to their code.
\<close>

definition isUpper :: "char \<Rightarrow> bool" where
  "isUpper c = (CHR ''A'' \<le> c \<and> c \<le> CHR ''Z'')"

definition toLower :: "char \<Rightarrow> char" where
  "toLower c = (if isUpper c then char_of (of_char c + (32::nat)) else c)"

definition toLowerBA :: "string \<Rightarrow> string" where
  "toLowerBA s = map toLower s"

subsection \<open>\<open>QVariant::toInt(bool *ok)\<close>\<close>

definition isSpace :: "char \<Rightarrow> bool" where
  "isSpace c = (c = CHR '' '' \<or> (CHR 0x09 \<le> c \<and> c \<le> CHR 0x0D))"

definition isDigit :: "char \<Rightarrow> bool" where
  "isDigit c = (CHR ''0'' \<le> c \<and> c \<le> CHR ''9'')"

definition digitValue :: "char \<Rightarrow> int" where
  "digitValue c = int (of_char c) - 48"

definition trimmed :: "string \<Rightarrow> string" where
  "trimmed s = rev (dropWhile isSpace (rev (dropWhile isSpace s)))"

definition parseDigits :: "string \<Rightarrow> int option" where
  "parseDigits ds =
     (if ds \<noteq> [] \<and> list_all isDigit ds
      then Some (foldl (\<lambda>a d. 10 * a + digitValue d) 0 ds) else None)"

definition parseInteger :: "string \<Rightarrow> int option" where
  "parseInteger s =
     (case trimmed s of
        [] \<Rightarrow> None
      | c # cs \<Rightarrow>
          if c = CHR ''-'' then map_option uminus (parseDigits cs)
          else if c = CHR ''+'' then parseDigits cs
          else parseDigits (c # cs))"

text \<open>
  The pair is (returned \<open>int\<close>, \<open>ok\<close>). Qt converts an \<open>int\<close> to itself and a \<open>bool\<close> to
  0 or 1. A string goes through \<open>QString::toLongLong\<close> (base 10: surrounding white
  space, an optional sign, decimal digits; a value outside the 64-bit range fails) and
  the \<open>qlonglong\<close> is then narrowed to \<open>int\<close>: a value outside the \<open>int\<close> range keeps its
  low 32 bits and \<open>ok\<close> stays true. The invalid variant and a \<open>QDateTime\<close> do not
  convert: \<open>ok\<close> is false and 0 is returned.
\<close>

fun toInt :: "variant \<Rightarrow> 32 word \<times> bool" where
  "toInt VInvalid = (0, False)"
| "toInt (VBool b) = (if b then 1 else 0, True)"
| "toInt (VInt n) = (n, True)"
| "toInt (VString s) =
     (case parseInteger s of
        None \<Rightarrow> (0, False)
      | Some v \<Rightarrow>
          if - 9223372036854775808 \<le> v \<and> v \<le> 9223372036854775807
          then (word_of_int v, True)
          else (0, False))"
| "toInt (VDateTime t) = (0, False)"

subsection \<open>\<open>QVariantMap\<close>\<close>

text \<open>
  \<open>QMap<QString, QVariant>\<close>: one value per key, iterated in ascending key order. It is
  kept as a list of pairs; \<open>qmap_insert\<close> is \<open>QMap::insert\<close> (and \<open>operator[]\<close> followed
  by assignment): it replaces the value of a key that is present and puts a new key at
  its place in the order.
\<close>

type_synonym variantmap = "(string \<times> variant) list"

fun qmap_insert :: "string \<Rightarrow> variant \<Rightarrow> variantmap \<Rightarrow> variantmap" where
  "qmap_insert k v [] = [(k, v)]"
| "qmap_insert k v ((k', v') # m) =
     (if k = k' then (k, v) # m
      else if k < k' then (k, v) # (k', v') # m
      else (k', v') # qmap_insert k v m)"

definition qmap_value :: "variantmap \<Rightarrow> string \<Rightarrow> variant" where
  "qmap_value m k = (case map_of m k of None \<Rightarrow> VInvalid | Some v \<Rightarrow> v)"

text \<open>The representation invariant of a \<open>QMap\<close>: strictly ascending keys.\<close>

definition qmap_wf :: "variantmap \<Rightarrow> bool" where
  "qmap_wf m = (sorted (map fst m) \<and> distinct (map fst m))"

section \<open>The meta-object and the object\<close>

text \<open>
  \<open>metaObject()\<close> gives the class name and the properties by index. The properties of
  the super classes have the indexes below \<open>propertyOffset()\<close>; the class's own
  \<open>Q_PROPERTY\<close> declarations follow in declaration order up to \<open>propertyCount()\<close>.
\<close>

record metaobject =
  className :: string
  inherited :: "string list"
  declared :: "string list"

definition propertyOffset :: "metaobject \<Rightarrow> int" where
  "propertyOffset mo = int (length (inherited mo))"

definition propertyCount :: "metaobject \<Rightarrow> int" where
  "propertyCount mo = int (length (inherited mo)) + int (length (declared mo))"

fun indexIn :: "string list \<Rightarrow> string \<Rightarrow> int \<Rightarrow> int" where
  "indexIn [] name i = - 1"
| "indexIn (n # ns) name i = (if n = name then i else indexIn ns name (i + 1))"

text \<open>
  \<open>QMetaObject::indexOfProperty\<close> looks in the class itself before its super classes,
  and answers \<open>-1\<close> when no property has the name.
\<close>

definition indexOfProperty :: "metaobject \<Rightarrow> string \<Rightarrow> int" where
  "indexOfProperty mo name =
     (let j = indexIn (declared mo) name (propertyOffset mo)
      in if 0 \<le> j then j else indexIn (inherited mo) name 0)"

text \<open>
  The object: the values of its properties by name (\<open>QObject::property\<close> answers the
  invalid variant for a name that has no value), the inherited \<open>QVariantMap\<close>, and the
  name \<open>QObject::objectName()\<close> answers. \<open>setProperty\<close> stores the variant it is given:
  the conversion to the C++ type of the \<open>Q_PROPERTY\<close> and its \<open>WRITE\<close> accessor belong to
  the generated subclass.
\<close>

record mongoobject =
  property :: "string \<Rightarrow> variant"
  variantMap :: variantmap
  objectName :: string

text \<open>
  Modelled from the spec: \<open>objectId()\<close>, \<open>isNull()\<close> and \<open>isNew()\<close> are declared in the
  header \<open>tmongoobject.h\<close> and overridden by the generated subclass. The spec gives a
  record an opaque identity (\<open>_id\<close>-like), present once persisted, and calls a record
  new iff its identity is absent. \<open>create()\<close> relies on \<open>syncToObject()\<close> to reflect
  \<open>_id\<close>, so the identity is the string held by the property \<open>_id\<close>.
\<close>

definition objectId :: "mongoobject \<Rightarrow> string" where
  "objectId obj = (case property obj ''_id'' of VString s \<Rightarrow> s | _ \<Rightarrow> [])"

definition isNull :: "mongoobject \<Rightarrow> bool" where
  "isNull obj = (objectId obj = [])"

definition isNew :: "mongoobject \<Rightarrow> bool" where
  "isNew obj = (objectId obj = [])"

section \<open>The collaborators\<close>

text \<open>
  \<open>TMongoQuery\<close> is outside the file. A store answers each call: \<open>insert\<close> with its
  boolean and the document as the call left it (\<open>insert\<close> takes the document by
  reference and gives it its \<open>_id\<close>), \<open>update\<close> and \<open>remove\<close> with their boolean and
  the \<open>numDocsAffected()\<close> that follows. The first argument is the collection name the
  query was constructed with.
\<close>

record mongo =
  mongo_insert :: "string \<Rightarrow> variantmap \<Rightarrow> bool \<times> variantmap"
  mongo_update :: "string \<Rightarrow> variantmap \<Rightarrow> variantmap \<Rightarrow> bool \<times> int"
  mongo_remove :: "string \<Rightarrow> variantmap \<Rightarrow> bool \<times> int"

datatype store_call =
    Insert string variantmap
  | Update string variantmap variantmap
  | Remove string variantmap

datatype log_entry = TError string | TWarn string

datatype result = Return bool | Throw string

text \<open>
  What a call of a member function leaves: the object, what it returned or the message
  of the \<open>KvsException\<close> it threw, the calls it made on the store and what it logged.
  \<open>QDateTime::currentDateTime()\<close> is a clock: reading number \<open>k\<close> of a call gives
  \<open>clock k\<close>.
\<close>

record outcome =
  object :: mongoobject
  result :: result
  calls :: "store_call list"
  logs :: "log_entry list"

section \<open>\<open>tmongoobject.cpp\<close>\<close>

definition LockRevision :: string where "LockRevision = ''lock_revision''"
definition CreatedAt :: string where "CreatedAt = ''created_at''"
definition UpdatedAt :: string where "UpdatedAt = ''updated_at''"
definition ModifiedAt :: string where "ModifiedAt = ''modified_at''"

subsection \<open>\<open>collectionName\<close>\<close>

fun collectionName_loop :: "int \<Rightarrow> string \<Rightarrow> string \<Rightarrow> string" where
  "collectionName_loop i [] collection = collection"
| "collectionName_loop i (c # clsname) collection =
     collectionName_loop (i + 1) clsname
       ((if 0 < i \<and> isUpper c then collection @ ''_'' else collection) @ [toLower c])"

text \<open>
  \<open>QString::remove(QRegExp("_object$"))\<close>: the pattern matches at the end of the string
  only, so the one match there, if any, is removed. \<open>remove_at_end pat\<close> removes the
  literal \<open>pat\<close> when the string ends with it.
\<close>

definition remove_at_end :: "string \<Rightarrow> string \<Rightarrow> string" where
  "remove_at_end pat s =
     (if length pat \<le> length s \<and> drop (length s - length pat) s = pat
      then take (length s - length pat) s else s)"

definition collectionNameOf :: "string \<Rightarrow> string" where
  "collectionNameOf clsname = remove_at_end ''_object'' (collectionName_loop 0 clsname [])"

definition collectionName :: "metaobject \<Rightarrow> string" where
  "collectionName mo = collectionNameOf (className mo)"

subsection \<open>\<open>syncToObject\<close> and \<open>syncToVariantMap\<close>\<close>

fun syncToObject_loop ::
  "metaobject \<Rightarrow> variantmap \<Rightarrow> (string \<Rightarrow> variant) \<Rightarrow> (string \<Rightarrow> variant)" where
  "syncToObject_loop mo [] p = p"
| "syncToObject_loop mo ((name, v) # it) p =
     (if propertyOffset mo \<le> indexOfProperty mo name
      then syncToObject_loop mo it (p(name := v))
      else syncToObject_loop mo it p)"

definition syncToObject :: "metaobject \<Rightarrow> mongoobject \<Rightarrow> mongoobject" where
  "syncToObject mo obj =
     obj\<lparr>property := syncToObject_loop mo (variantMap obj) (property obj)\<rparr>"

fun syncToVariantMap_loop ::
  "string list \<Rightarrow> (string \<Rightarrow> variant) \<Rightarrow> variantmap \<Rightarrow> variantmap" where
  "syncToVariantMap_loop [] p m = m"
| "syncToVariantMap_loop (propName # rest) p m =
     syncToVariantMap_loop rest p (qmap_insert propName (p propName) m)"

definition syncToVariantMap :: "metaobject \<Rightarrow> mongoobject \<Rightarrow> mongoobject" where
  "syncToVariantMap mo obj =
     obj\<lparr>variantMap := syncToVariantMap_loop (declared mo) (property obj) []\<rparr>"

definition setBsonData :: "metaobject \<Rightarrow> variantmap \<Rightarrow> mongoobject \<Rightarrow> mongoobject" where
  "setBsonData mo bson obj = syncToObject mo (obj\<lparr>variantMap := bson\<rparr>)"

subsection \<open>\<open>create\<close>\<close>

text \<open>The loop over the declared properties; \<open>k\<close> counts the readings of the clock.\<close>

fun create_loop ::
  "(nat \<Rightarrow> datetime) \<Rightarrow> nat \<Rightarrow> string list \<Rightarrow> (string \<Rightarrow> variant) \<Rightarrow> (string \<Rightarrow> variant)" where
  "create_loop clock k [] p = p"
| "create_loop clock k (propName # rest) p =
     (let prop = toLowerBA propName in
      if prop = CreatedAt \<or> prop = UpdatedAt \<or> prop = ModifiedAt
      then create_loop clock (Suc k) rest (p(propName := VDateTime (clock k)))
      else if prop = LockRevision
      then create_loop clock k rest (p(propName := VInt 1))
      else create_loop clock k rest p)"

definition create ::
  "(nat \<Rightarrow> datetime) \<Rightarrow> mongo \<Rightarrow> metaobject \<Rightarrow> mongoobject \<Rightarrow> outcome" where
  "create clock store mo obj =
     (let obj1 = obj\<lparr>property := create_loop clock 0 (declared mo) (property obj)\<rparr>;
          obj2 = syncToVariantMap mo obj1;
          coll = collectionName mo;
          (ret, doc) = mongo_insert store coll (variantMap obj2);
          obj3 = obj2\<lparr>variantMap := doc\<rparr>
      in \<lparr>object = (if ret then syncToObject mo obj3 else obj3),
          result = Return ret,
          calls = [Insert coll (variantMap obj2)],
          logs = []\<rparr>)"

subsection \<open>\<open>update\<close>\<close>

text \<open>
  The \<open>tError\<close> of both guards: the format
  \<open>Unable to convert the 'revision' property to an int, %s\<close> filled with the object's
  name.
\<close>

definition revisionError :: "string \<Rightarrow> log_entry" where
  "revisionError name =
     TError (''Unable to convert the 'revision' property to an int, '' @ name)"

text \<open>
  The loop of \<open>update\<close>. \<open>Inl\<close> is the \<open>return false\<close> inside the loop, with the property
  values as they are then; \<open>Inr\<close> is the end of the loop with the property values,
  \<open>revIndex\<close> and \<open>cri\<close>.
\<close>

fun update_loop ::
  "datetime \<Rightarrow> int \<Rightarrow> string list \<Rightarrow> (string \<Rightarrow> variant) \<Rightarrow> bool \<Rightarrow> int \<Rightarrow> variantmap
   \<Rightarrow> (string \<Rightarrow> variant) + ((string \<Rightarrow> variant) \<times> int \<times> variantmap)" where
  "update_loop now i [] p updflag revIndex cri = Inr (p, revIndex, cri)"
| "update_loop now i (propName # rest) p updflag revIndex cri =
     (let prop = toLowerBA propName in
      if \<not> updflag \<and> (prop = UpdatedAt \<or> prop = ModifiedAt)
      then update_loop now (i + 1) rest (p(propName := VDateTime now)) True revIndex cri
      else if revIndex < 0 \<and> prop = LockRevision
      then (case toInt (p propName) of
              (oldRevision, ok) \<Rightarrow>
                if \<not> ok \<or> sint oldRevision \<le> 0 then Inl p
                else update_loop now (i + 1) rest
                       (p(propName := VInt (oldRevision + 1))) updflag i
                       (qmap_insert propName (VInt oldRevision) cri))
      else update_loop now (i + 1) rest p updflag revIndex cri)"

definition update ::
  "(nat \<Rightarrow> datetime) \<Rightarrow> mongo \<Rightarrow> metaobject \<Rightarrow> mongoobject \<Rightarrow> outcome" where
  "update clock store mo obj =
     (if isNull obj
      then \<lparr>object = obj, result = Return False, calls = [], logs = []\<rparr>
      else
        (case update_loop (clock 0) (propertyOffset mo) (declared mo) (property obj)
                False (- 1) [] of
           Inl p \<Rightarrow>
             \<lparr>object = obj\<lparr>property := p\<rparr>, result = Return False, calls = [],
              logs = [revisionError (objectName obj)]\<rparr>
         | Inr (p, revIndex, cri0) \<Rightarrow>
             (let obj1 = obj\<lparr>property := p\<rparr>;
                  cri = qmap_insert ''_id'' (VString (objectId obj1)) cri0;
                  obj2 = syncToVariantMap mo obj1;
                  coll = collectionName mo;
                  (ret, numDocsAffected) = mongo_update store coll cri (variantMap obj2)
              in \<lparr>object = obj2,
                  result =
                    (if 0 \<le> revIndex \<and> numDocsAffected \<noteq> 1
                     then Throw (''Doc was updated or deleted from table '' @ coll)
                     else Return ret),
                  calls = [Update coll cri (variantMap obj2)],
                  logs = []\<rparr>)))"

subsection \<open>\<open>remove\<close>\<close>

text \<open>
  The loop of \<open>remove\<close>: \<open>Inl\<close> is the \<open>return false\<close> inside the loop, \<open>Inr\<close> gives
  \<open>revIndex\<close> and \<open>cri\<close> at the \<open>break\<close> or at the end of the loop.
\<close>

fun remove_loop ::
  "int \<Rightarrow> string list \<Rightarrow> (string \<Rightarrow> variant) \<Rightarrow> int \<Rightarrow> variantmap
   \<Rightarrow> unit + (int \<times> variantmap)" where
  "remove_loop i [] p revIndex cri = Inr (revIndex, cri)"
| "remove_loop i (propName # rest) p revIndex cri =
     (let prop = toLowerBA propName in
      if prop = LockRevision
      then (case toInt (p propName) of
              (revision, ok) \<Rightarrow>
                if \<not> ok \<or> sint revision \<le> 0 then Inl ()
                else Inr (i, qmap_insert propName (VInt revision) cri))
      else remove_loop (i + 1) rest p revIndex cri)"

definition deletedWarning :: "string \<Rightarrow> log_entry" where
  "deletedWarning coll = TWarn (''Doc was deleted by another transaction, '' @ coll)"

definition remove ::
  "mongo \<Rightarrow> metaobject \<Rightarrow> mongoobject \<Rightarrow> outcome" where
  "remove store mo obj =
     (if isNull obj
      then \<lparr>object = obj, result = Return False, calls = [], logs = []\<rparr>
      else
        (case remove_loop (propertyOffset mo) (declared mo) (property obj) (- 1) [] of
           Inl u \<Rightarrow>
             \<lparr>object = obj, result = Return False, calls = [],
              logs = [revisionError (objectName obj)]\<rparr>
         | Inr (revIndex, cri0) \<Rightarrow>
             (let cri = qmap_insert ''_id'' (VString (objectId obj)) cri0;
                  coll = collectionName mo;
                  (ret, numDocsAffected) = mongo_remove store coll cri;
                  obj1 = obj\<lparr>variantMap := []\<rparr>
              in if numDocsAffected \<noteq> 1
                 then (if 0 \<le> revIndex
                       then \<lparr>object = obj1,
                             result = Throw (''Doc was updated or deleted from collection '' @ coll),
                             calls = [Remove coll cri], logs = []\<rparr>
                       else \<lparr>object = obj1, result = Return ret,
                             calls = [Remove coll cri], logs = [deletedWarning coll]\<rparr>)
                 else \<lparr>object = obj1, result = Return ret,
                       calls = [Remove coll cri], logs = []\<rparr>)))"

subsection \<open>\<open>reload\<close> and \<open>isModified\<close>\<close>

definition reload :: "metaobject \<Rightarrow> mongoobject \<Rightarrow> outcome" where
  "reload mo obj =
     (if isNull obj
      then \<lparr>object = obj, result = Return False, calls = [], logs = []\<rparr>
      else \<lparr>object = syncToObject mo obj, result = Return True, calls = [], logs = []\<rparr>)"

fun isModified_loop ::
  "metaobject \<Rightarrow> (string \<Rightarrow> variant) \<Rightarrow> variantmap \<Rightarrow> bool" where
  "isModified_loop mo p [] = False"
| "isModified_loop mo p ((name, v) # it) =
     (if propertyOffset mo \<le> indexOfProperty mo name
      then (if v \<noteq> p name then True else isModified_loop mo p it)
      else isModified_loop mo p it)"

definition isModified :: "metaobject \<Rightarrow> mongoobject \<Rightarrow> bool" where
  "isModified mo obj =
     (if isNew obj then False else isModified_loop mo (property obj) (variantMap obj))"

section \<open>Vocabulary of the properties\<close>

text \<open>
  The collection name as the specification words it: an underscore before every upper
  case letter but the first character, every letter lower-cased, a trailing
  \<open>_object\<close> stripped.
\<close>

definition insert_underscores :: "string \<Rightarrow> string" where
  "insert_underscores s =
     (case s of
        [] \<Rightarrow> []
      | c # cs \<Rightarrow> c # concat (map (\<lambda>x. if isUpper x then [CHR ''_'', x] else [x]) cs))"

definition strip_suffix :: "string \<Rightarrow> string \<Rightarrow> string" where
  "strip_suffix suf s =
     (if take (length suf) (rev s) = rev suf then rev (drop (length suf) (rev s)) else s)"

definition spec_collection_name :: "string \<Rightarrow> string" where
  "spec_collection_name typeName =
     strip_suffix ''_object'' (map toLower (insert_underscores typeName))"

text \<open>The reserved names, compared in lower case as the source compares them.\<close>

definition isUpdateStamp :: "string \<Rightarrow> bool" where
  "isUpdateStamp name = (toLowerBA name = UpdatedAt \<or> toLowerBA name = ModifiedAt)"

definition isCreateStamp :: "string \<Rightarrow> bool" where
  "isCreateStamp name =
     (toLowerBA name = CreatedAt \<or> toLowerBA name = UpdatedAt \<or> toLowerBA name = ModifiedAt)"

definition isRevision :: "string \<Rightarrow> bool" where
  "isRevision name = (toLowerBA name = LockRevision)"

text \<open>A value that \<open>toInt\<close> converts, to an \<open>int\<close> above zero.\<close>

definition positiveInt :: "variant \<Rightarrow> bool" where
  "positiveInt v = (snd (toInt v) \<and> 0 < sint (fst (toInt v)))"

text \<open>
  What the loop of \<open>update\<close> leaves when it runs to its end from the flags \<open>updflag\<close> and
  \<open>revIndex\<close>: the first time stamp of an update holds the clock's reading, the first
  revision counter is one more than the \<open>int\<close> it converted to, and that \<open>int\<close> is the
  criterion stored under the counter's name. \<open>beforeRevision\<close> are the properties
  declared before the first revision counter.
\<close>

definition update_props ::
  "datetime \<Rightarrow> string list \<Rightarrow> bool \<Rightarrow> int \<Rightarrow> (string \<Rightarrow> variant) \<Rightarrow> (string \<Rightarrow> variant)" where
  "update_props now names updflag revIndex p =
     (\<lambda>n. if \<not> updflag \<and> find isUpdateStamp names = Some n then VDateTime now
          else if revIndex < 0 \<and> find isRevision names = Some n
          then VInt (fst (toInt (p n)) + 1)
          else p n)"

definition update_cri :: "string list \<Rightarrow> int \<Rightarrow> (string \<Rightarrow> variant) \<Rightarrow> variantmap \<Rightarrow> variantmap" where
  "update_cri names revIndex p cri =
     (if revIndex < 0
      then (case find isRevision names of
              None \<Rightarrow> cri
            | Some f \<Rightarrow> qmap_insert f (VInt (fst (toInt (p f)))) cri)
      else cri)"


section \<open>Two classes, a store and records for the examples\<close>

text \<open>
  \<open>blog\<close> declares both time stamps of an update before its revision counter;
  \<open>memo\<close> has no revision counter. \<open>answering ret n\<close> is a store whose calls return
  \<open>ret\<close> and report \<open>n\<close> affected documents; its \<open>insert\<close> gives the document an
  \<open>_id\<close>.
\<close>

definition blog :: metaobject where
  "blog = \<lparr>className = ''BlogObject'', inherited = [''objectName''],
           declared = [''_id'', ''title'', ''created_at'', ''updated_at'', ''modified_at'',
                       ''lock_revision'']\<rparr>"

definition memo :: metaobject where
  "memo = \<lparr>className = ''Memo'', inherited = [''objectName''],
           declared = [''_id'', ''body'', ''updated_at'']\<rparr>"

definition answering :: "bool \<Rightarrow> int \<Rightarrow> mongo" where
  "answering ret n =
     \<lparr>mongo_insert = (\<lambda>coll doc. (ret, qmap_insert ''_id'' (VString ''65f0'') doc)),
      mongo_update = (\<lambda>coll cri doc. (ret, n)),
      mongo_remove = (\<lambda>coll cri. (ret, n))\<rparr>"

definition ticking :: "nat \<Rightarrow> datetime" where
  "ticking k = 1000 + int k"

definition blog_record :: "string \<Rightarrow> variant \<Rightarrow> mongoobject" where
  "blog_record ident revision =
     \<lparr>property = qmap_value [(''_id'', VString ident), (''title'', VString ''draft''),
                              (''lock_revision'', revision)],
      variantMap = [],
      objectName = ''post''\<rparr>"

text \<open>The same record as it is after loading: the document holds its values.\<close>

definition loaded_blog_record :: "string \<Rightarrow> variant \<Rightarrow> mongoobject" where
  "loaded_blog_record ident revision =
     (blog_record ident revision)
       \<lparr>variantMap := [(''_id'', VString ident), (''lock_revision'', revision),
                       (''title'', VString ''draft'')]\<rparr>"

definition memo_record :: "string \<Rightarrow> mongoobject" where
  "memo_record ident =
     \<lparr>property = qmap_value [(''_id'', VString ident), (''body'', VString ''milk'')],
      variantMap = [(''_id'', VString ident), (''body'', VString ''milk'')],
      objectName = ''note''\<rparr>"

section \<open>The collection name\<close>

lemma toLower_underscore: "toLower (CHR ''_'') = CHR ''_''"
  by (simp add: toLower_def isUpper_def)

lemma collectionName_loop_pos:
  "0 < i \<Longrightarrow> collectionName_loop i cs acc =
     acc @ map toLower (concat (map (\<lambda>x. if isUpper x then [CHR ''_'', x] else [x]) cs))"
  by (induction cs arbitrary: i acc) (simp_all add: toLower_underscore)

lemma collectionName_loop_0:
  "collectionName_loop 0 cs [] = map toLower (insert_underscores cs)"
  by (cases cs) (simp_all add: insert_underscores_def collectionName_loop_pos)

lemma remove_at_end_strip: "remove_at_end pat s = strip_suffix pat s"
proof (cases "length pat \<le> length s")
  case True
  have "take (length pat) (rev s) = rev (drop (length s - length pat) s)"
    by (simp add: take_rev)
  moreover have "rev (drop (length pat) (rev s)) = take (length s - length pat) s"
    by (simp add: rev_drop)
  ultimately show ?thesis
    using True unfolding remove_at_end_def strip_suffix_def by auto
next
  case False
  then have "length (take (length pat) (rev s)) \<noteq> length (rev pat)" by simp
  then have "take (length pat) (rev s) \<noteq> rev pat" by metis
  then show ?thesis
    using False unfolding remove_at_end_def strip_suffix_def by simp
qed

lemmas char_eval = toLower_def isUpper_def char_of_def bit_Suc_0_iff

text \<open>
  C7. The collection name that \<open>collectionName\<close> computes for a class is the one the
  three steps of the specification give for its name, whatever the name; it is a
  function of the class name alone. \<open>UserAccountObject\<close> gives \<open>user_account\<close>,
  \<open>Order\<close> gives \<open>order\<close> and \<open>HTTPLogObject\<close> gives \<open>h_t_t_p_log\<close>: every upper case
  letter of a run gets its own underscore.
\<close>

theorem collectionName_derivation:
  "collectionName mo = spec_collection_name (className mo)
   \<and> collectionNameOf ''UserAccountObject'' = ''user_account''
   \<and> collectionNameOf ''Order'' = ''order''
   \<and> collectionNameOf ''HTTPLogObject'' = ''h_t_t_p_log''"
proof -
  have "collectionName mo = spec_collection_name (className mo)"
    by (simp add: collectionName_def collectionNameOf_def spec_collection_name_def
        collectionName_loop_0 remove_at_end_strip)
  moreover have "collectionNameOf ''UserAccountObject'' = ''user_account''"
    by (simp add: collectionNameOf_def remove_at_end_def char_eval)
  moreover have "collectionNameOf ''Order'' = ''order''"
    by (simp add: collectionNameOf_def remove_at_end_def char_eval)
  moreover have "collectionNameOf ''HTTPLogObject'' = ''h_t_t_p_log''"
    by (simp add: collectionNameOf_def remove_at_end_def char_eval)
  ultimately show ?thesis by blast
qed

section \<open>A record without identity\<close>

text \<open>
  C8. On a new record (its identity is empty) \<open>update\<close>, \<open>remove\<close> and \<open>reload\<close> return
  false at once: no call reaches the store, nothing is logged, and the properties and
  the document are the ones the record had.
\<close>

theorem new_record_fails_fast:
  assumes "isNew obj"
  shows "update clock store mo obj
           = \<lparr>object = obj, result = Return False, calls = [], logs = []\<rparr>
       \<and> remove store mo obj
           = \<lparr>object = obj, result = Return False, calls = [], logs = []\<rparr>
       \<and> reload mo obj
           = \<lparr>object = obj, result = Return False, calls = [], logs = []\<rparr>"
  using assms by (simp add: update_def remove_def reload_def isNull_def isNew_def)

theorem new_record_fails_fast_witness:
  "isNew (blog_record [] (VInt 3))
   \<and> update ticking (answering True 1) blog (blog_record [] (VInt 3))
       = \<lparr>object = blog_record [] (VInt 3), result = Return False, calls = [], logs = []\<rparr>
   \<and> remove (answering True 1) blog (blog_record [] (VInt 3))
       = \<lparr>object = blog_record [] (VInt 3), result = Return False, calls = [], logs = []\<rparr>
   \<and> reload blog (blog_record [] (VInt 3))
       = \<lparr>object = blog_record [] (VInt 3), result = Return False, calls = [], logs = []\<rparr>"
proof -
  have new: "isNew (blog_record [] (VInt 3))"
    by (simp add: isNew_def objectId_def blog_record_def qmap_value_def)
  show ?thesis
    using new new_record_fails_fast [OF new, of ticking "answering True 1" blog] by simp
qed

section \<open>The examples, evaluated\<close>

lemmas name_eval = isUpdateStamp_def isCreateStamp_def isRevision_def toLowerBA_def
  UpdatedAt_def ModifiedAt_def CreatedAt_def LockRevision_def char_eval

lemma blog_revision: "find isRevision (declared blog) = Some ''lock_revision''"
  by (simp add: blog_def name_eval)

lemma blog_stamp: "find isUpdateStamp (declared blog) = Some ''updated_at''"
  by (simp add: blog_def name_eval)


lemma memo_no_revision: "find isRevision (declared memo) = None"
  by (simp add: memo_def name_eval)

lemma collection_names: "collectionName blog = ''blog''" "collectionName memo = ''memo''"
  by (simp_all add: collectionName_def collectionNameOf_def remove_at_end_def blog_def memo_def
      char_eval)

lemma blog_record_values:
  "property (blog_record ident v) ''_id'' = VString ident"
  "property (blog_record ident v) ''lock_revision'' = v"
  "property (blog_record ident v) ''updated_at'' = VInvalid"
  "property (blog_record ident v) ''modified_at'' = VInvalid"
  "property (blog_record ident v) ''title'' = VString ''draft''"
  "objectId (blog_record ident v) = ident"
  "isNew (blog_record ident v) = (ident = [])"
  by (simp_all add: blog_record_def qmap_value_def objectId_def isNew_def)


lemma loaded_blog_record_values:
  "property (loaded_blog_record ident v) = property (blog_record ident v)"
  "objectId (loaded_blog_record ident v) = ident"
  "isNew (loaded_blog_record ident v) = (ident = [])"
  "variantMap (loaded_blog_record ident v) \<noteq> []"
  by (simp_all add: loaded_blog_record_def blog_record_def qmap_value_def objectId_def
      isNew_def)

lemma answering_replies:
  "mongo_update (answering ret n) coll cri doc = (ret, n)"
  "mongo_remove (answering ret n) coll cri = (ret, n)"
  "mongo_insert (answering ret n) coll doc = (ret, qmap_insert ''_id'' (VString ''65f0'') doc)"
  by (simp_all add: answering_def)

lemma memo_record_values:
  "objectId (memo_record ident) = ident"
  "isNew (memo_record ident) = (ident = [])"
  "variantMap (memo_record ident) \<noteq> []"
  by (simp_all add: memo_record_def qmap_value_def objectId_def isNew_def)

lemma positiveInt_examples:
  "positiveInt (VInt 5)" "\<not> positiveInt (VInt 0)" "\<not> positiveInt (VString ''abc'')"
  "positiveInt (VString '' 42'')" "\<not> positiveInt VInvalid" "\<not> positiveInt (VInt (- 3))"
  by (simp_all add: positiveInt_def parseInteger_def trimmed_def isSpace_def parseDigits_def
      isDigit_def digitValue_def)

text \<open>
  A string outside the \<open>int\<close> range converts, to its low 32 bits: \<open>4294967301\<close> and
  \<open>-4294967295\<close> pass the guards as 5 and 1, \<open>4294967296\<close> is 0. A string outside the
  64-bit range does not convert.
\<close>

lemma toInt_narrows:
  "toInt (VString ''4294967301'') = (5, True)"
  "toInt (VString ''-4294967295'') = (1, True)"
  "toInt (VString ''4294967296'') = (0, True)"
  "toInt (VString ''9223372036854775808'') = (0, False)"
  by (simp_all add: parseInteger_def trimmed_def isSpace_def parseDigits_def
      isDigit_def digitValue_def)

lemma positiveInt_narrowed:
  "positiveInt (VString ''4294967301'')" "positiveInt (VString ''-4294967295'')"
  "\<not> positiveInt (VString ''4294967296'')"
  "\<not> positiveInt (VString ''9223372036854775808'')"
  by (simp_all add: positiveInt_def toInt_narrows del: toInt.simps)

lemma blog_create_stamps: "length (filter isCreateStamp (declared blog)) = 3"
  by (simp add: blog_def name_eval)

lemma blog_names:
  "''created_at'' \<in> set (declared blog)" "isCreateStamp ''created_at''"
  "''lock_revision'' \<in> set (declared blog)" "isRevision ''lock_revision''"
  "''title'' \<in> set (declared blog)" "\<not> isCreateStamp ''title''" "\<not> isRevision ''title''"
  by (simp_all add: blog_def name_eval)

section \<open>The reserved names\<close>

lemma stamp_not_revision: "isUpdateStamp n \<Longrightarrow> \<not> isRevision n"
  by (auto simp: isUpdateStamp_def isRevision_def UpdatedAt_def ModifiedAt_def LockRevision_def)

lemma create_stamp_not_revision: "isCreateStamp n \<Longrightarrow> \<not> isRevision n"
  by (auto simp: isCreateStamp_def isRevision_def UpdatedAt_def ModifiedAt_def CreatedAt_def LockRevision_def)

lemma id_not_reserved: "\<not> isUpdateStamp ''_id''" "\<not> isRevision ''_id''"
  by (simp_all add: isUpdateStamp_def isRevision_def toLowerBA_def UpdatedAt_def
      ModifiedAt_def LockRevision_def char_eval)

lemma find_holds: "find P xs = Some x \<Longrightarrow> P x"
  by (induction xs) (auto split: if_splits)

section \<open>The map operations\<close>

lemma map_of_qmap_insert: "map_of (qmap_insert k v m) = (map_of m)(k \<mapsto> v)"
  by (induction m) (auto simp: fun_eq_iff)

lemma qmap_value_insert:
  "qmap_value (qmap_insert k v m) n = (if n = k then v else qmap_value m n)"
  by (simp add: qmap_value_def map_of_qmap_insert)

lemma set_qmap_insert: "set (qmap_insert k v m) \<subseteq> insert (k, v) (set m)"
  by (induction m) (auto split: if_splits)

lemma keys_qmap_insert: "set (map fst (qmap_insert k v m)) = insert k (set (map fst m))"
proof -
  have "dom (map_of (qmap_insert k v m)) = insert k (dom (map_of m))"
    by (simp add: map_of_qmap_insert)
  then show ?thesis by (simp add: dom_map_of_conv_image_fst)
qed

lemma qmap_wf_insert: "qmap_wf m \<Longrightarrow> qmap_wf (qmap_insert k v m)"
proof (induction m)
  case Nil
  then show ?case by (simp add: qmap_wf_def)
next
  case (Cons a m)
  obtain k' v' where a: "a = (k', v')" by (cases a)
  have wf: "qmap_wf m" using Cons.prems by (simp add: qmap_wf_def)
  have keys: "set (map fst (qmap_insert k v m)) = insert k (set (map fst m))"
    by (rule keys_qmap_insert)
  show ?case
    using Cons.prems Cons.IH[OF wf] keys unfolding a
    by (auto simp: qmap_wf_def)
qed

lemma map_of_syncToVariantMap_loop:
  "map_of (syncToVariantMap_loop names p m) n
     = (if n \<in> set names then Some (p n) else map_of m n)"
  by (induction names arbitrary: m) (auto simp: map_of_qmap_insert)

lemma set_syncToVariantMap_loop:
  "(k, v) \<in> set (syncToVariantMap_loop names p m) \<Longrightarrow> (k, v) \<in> set m \<or> v = p k"
proof (induction names arbitrary: m)
  case Nil
  then show ?case by simp
next
  case (Cons a names)
  then have "(k, v) \<in> set (qmap_insert a (p a) m) \<or> v = p k" by simp
  then show ?case using set_qmap_insert[of a "p a" m] by auto
qed

lemma qmap_wf_syncToVariantMap_loop:
  "qmap_wf m \<Longrightarrow> qmap_wf (syncToVariantMap_loop names p m)"
  by (induction names arbitrary: m) (simp_all add: qmap_wf_insert)

section \<open>The iterations over the declared properties\<close>

lemma propertyOffset_nonneg: "0 \<le> propertyOffset mo"
  by (simp add: propertyOffset_def)

lemma update_loop_step:
  "update_loop now i (a # rest) p updflag revIndex cri =
     (if \<not> updflag \<and> isUpdateStamp a
      then update_loop now (i + 1) rest (p(a := VDateTime now)) True revIndex cri
      else if revIndex < 0 \<and> isRevision a
      then (if \<not> positiveInt (p a) then Inl p
            else update_loop now (i + 1) rest
                   (p(a := VInt (fst (toInt (p a)) + 1))) updflag i
                   (qmap_insert a (VInt (fst (toInt (p a)))) cri))
      else update_loop now (i + 1) rest p updflag revIndex cri)"
  by (auto simp: isUpdateStamp_def isRevision_def positiveInt_def Let_def split: prod.splits)


lemma update_loop_Inr:
  assumes "revIndex < 0 \<longrightarrow> (\<forall>f. find isRevision names = Some f \<longrightarrow> positiveInt (p f))"
    and "0 \<le> i"
  shows "\<exists>ri. update_loop now i names p updflag revIndex cri
            = Inr (update_props now names updflag revIndex p, ri, update_cri names revIndex p cri)
          \<and> (0 \<le> ri) = (0 \<le> revIndex \<or> find isRevision names \<noteq> None)"
  using assms
proof (induction names arbitrary: i p updflag revIndex cri)
  case Nil
  then show ?case by (auto simp: update_props_def update_cri_def)
next
  case (Cons a names)
  have i: "0 \<le> i + 1" using Cons.prems(2) by simp
  show ?case
  proof (cases "\<not> updflag \<and> isUpdateStamp a")
    case True
    then have nr: "\<not> isRevision a" by (simp add: stamp_not_revision)
    have h: "revIndex < 0 \<longrightarrow>
        (\<forall>f. find isRevision names = Some f \<longrightarrow> positiveInt ((p(a := VDateTime now)) f))"
      using Cons.prems(1) nr by (auto dest: find_holds)
    from Cons.IH[OF h i, of True cri]
    obtain ri where r: "update_loop now (i + 1) names (p(a := VDateTime now)) True revIndex cri
            = Inr (update_props now names True revIndex (p(a := VDateTime now)), ri,
                   update_cri names revIndex (p(a := VDateTime now)) cri)"
       "(0 \<le> ri) = (0 \<le> revIndex \<or> find isRevision names \<noteq> None)" by blast
    have p: "update_props now names True revIndex (p(a := VDateTime now))
           = update_props now (a # names) updflag revIndex p"
      using True nr by (auto simp: update_props_def fun_eq_iff dest: find_holds)
    have c: "update_cri names revIndex (p(a := VDateTime now)) cri
           = update_cri (a # names) revIndex p cri"
      using True nr by (auto simp: update_cri_def split: option.splits dest: find_holds)
    show ?thesis
      using r True nr p c by (simp add: update_loop_step del: update_loop.simps)
  next
    case ns: False
    show ?thesis
    proof (cases "revIndex < 0 \<and> isRevision a")
      case True
      then have ok: "positiveInt (p a)" using Cons.prems(1) by simp
      let ?p = "p(a := VInt (fst (toInt (p a)) + 1))"
      let ?c = "qmap_insert a (VInt (fst (toInt (p a)))) cri"
      have h: "i < 0 \<longrightarrow> (\<forall>f. find isRevision names = Some f \<longrightarrow> positiveInt (?p f))"
        using Cons.prems(2) by simp
      from Cons.IH[OF h i, of updflag ?c]
      obtain ri where r: "update_loop now (i + 1) names ?p updflag i ?c
            = Inr (update_props now names updflag i ?p, ri, update_cri names i ?p ?c)"
         "(0 \<le> ri) = (0 \<le> i \<or> find isRevision names \<noteq> None)" by blast
      have nst: "\<not> isUpdateStamp a" using True stamp_not_revision by blast
      have p: "update_props now names updflag i ?p = update_props now (a # names) updflag revIndex p"
        using True nst Cons.prems(2)
        by (auto simp: update_props_def fun_eq_iff dest: find_holds)
      have c: "update_cri names i ?p ?c = update_cri (a # names) revIndex p cri"
        using True Cons.prems(2) by (simp add: update_cri_def)
      show ?thesis
        using r True nst ok p c Cons.prems(2)
        by (simp add: update_loop_step del: update_loop.simps)
    next
      case False
      have h: "revIndex < 0 \<longrightarrow> (\<forall>f. find isRevision names = Some f \<longrightarrow> positiveInt (p f))"
        using Cons.prems(1) False by auto
      from Cons.IH[OF h i, of updflag cri]
      obtain ri where r: "update_loop now (i + 1) names p updflag revIndex cri
            = Inr (update_props now names updflag revIndex p, ri, update_cri names revIndex p cri)"
         "(0 \<le> ri) = (0 \<le> revIndex \<or> find isRevision names \<noteq> None)" by blast
      have p: "update_props now names updflag revIndex p
             = update_props now (a # names) updflag revIndex p"
        using False ns by (auto simp: update_props_def fun_eq_iff)
      have c: "update_cri names revIndex p cri = update_cri (a # names) revIndex p cri"
        using False by (auto simp: update_cri_def)
      show ?thesis
        using r False ns p c by (auto simp add: update_loop_step simp del: update_loop.simps)
    qed
  qed
qed

lemma objectId_update_props:
  "objectId (obj\<lparr>property := update_props now names updflag revIndex (property obj)\<rparr>)
     = objectId obj"
proof -
  have "find isUpdateStamp names \<noteq> Some ''_id''" "find isRevision names \<noteq> Some ''_id''"
    using id_not_reserved find_holds by metis+
  then show ?thesis by (simp add: objectId_def update_props_def)
qed

text \<open>What \<open>update\<close> does when its loop runs to the end.\<close>

lemma update_runs:
  assumes "\<not> isNull obj"
    and "\<forall>f. find isRevision (declared mo) = Some f \<longrightarrow> positiveInt (property obj f)"
  shows "update clock store mo obj =
      (let obj1 = obj\<lparr>property := update_props (clock 0) (declared mo) False (- 1) (property obj)\<rparr>;
           cri = qmap_insert ''_id'' (VString (objectId obj))
                   (update_cri (declared mo) (- 1) (property obj) []);
           obj2 = syncToVariantMap mo obj1;
           coll = collectionName mo;
           reply = mongo_update store coll cri (variantMap obj2)
       in \<lparr>object = obj2,
           result = (if find isRevision (declared mo) \<noteq> None \<and> snd reply \<noteq> 1
                     then Throw (''Doc was updated or deleted from table '' @ coll)
                     else Return (fst reply)),
           calls = [Update coll cri (variantMap obj2)],
           logs = []\<rparr>)"
proof -
  have h: "(- 1 :: int) < 0 \<longrightarrow>
      (\<forall>f. find isRevision (declared mo) = Some f \<longrightarrow> positiveInt (property obj f))"
    using assms(2) by simp
  from update_loop_Inr[OF h propertyOffset_nonneg, of "clock 0" mo False "[]"]
  obtain ri where r: "update_loop (clock 0) (propertyOffset mo) (declared mo) (property obj)
        False (- 1) []
      = Inr (update_props (clock 0) (declared mo) False (- 1) (property obj), ri,
             update_cri (declared mo) (- 1) (property obj) [])"
    "(0 \<le> ri) = (find isRevision (declared mo) \<noteq> None)" by auto
  show ?thesis
    using assms(1) r
    by (simp add: update_def Let_def objectId_update_props split: prod.splits)
qed

subsection \<open>The iteration of \<open>remove\<close>\<close>

lemma remove_loop_step:
  "remove_loop i (a # rest) p revIndex cri =
     (if isRevision a
      then (if \<not> positiveInt (p a) then Inl ()
            else Inr (i, qmap_insert a (VInt (fst (toInt (p a)))) cri))
      else remove_loop (i + 1) rest p revIndex cri)"
  by (auto simp: isRevision_def positiveInt_def Let_def split: prod.splits)

lemma remove_loop_Inl:
  "find isRevision names = Some f \<Longrightarrow> \<not> positiveInt (p f)
   \<Longrightarrow> remove_loop i names p revIndex cri = Inl ()"
  by (induction names arbitrary: i)
    (auto simp add: remove_loop_step simp del: remove_loop.simps(2) split: if_splits)

lemma remove_loop_Inr:
  "find isRevision names = Some f \<Longrightarrow> positiveInt (p f) \<Longrightarrow> 0 \<le> i
   \<Longrightarrow> \<exists>ri. 0 \<le> ri \<and> remove_loop i names p revIndex cri
              = Inr (ri, qmap_insert f (VInt (fst (toInt (p f)))) cri)"
  by (induction names arbitrary: i)
    (auto simp add: remove_loop_step simp del: remove_loop.simps(2) split: if_splits)

lemma remove_loop_none:
  "find isRevision names = None \<Longrightarrow> remove_loop i names p revIndex cri = Inr (revIndex, cri)"
  by (induction names arbitrary: i)
    (auto simp add: remove_loop_step simp del: remove_loop.simps(2) split: if_splits)

section \<open>\<open>update\<close> on a record with an identity\<close>

text \<open>
  C1, as the code has it. On a record with an identity whose first \<open>lock_revision\<close>
  property, if the class declares one, converts to an \<open>int\<close> above zero, \<open>update\<close> leaves
  every property as it was but two: the first property in declaration order whose
  lower-cased name is \<open>updated_at\<close> or \<open>modified_at\<close> holds the reading of the clock, and
  the first whose lower-cased name is \<open>lock_revision\<close> holds its former \<open>int\<close> plus one (the
  addition of the 32-bit \<open>int\<close>). The one call on the store is an update of the class's
  collection; its criteria are \<open>_id\<close> with the identity and, under the name of that
  revision property, the \<open>int\<close> before the increment; its document is the one the object
  is left with. Without the condition on the revision the statement fails: see
  \<open>update_invalid_revision_counterexample\<close>.
\<close>

theorem update_effects:
  assumes "\<not> isNew obj"
    and "\<forall>f. find isRevision (declared mo) = Some f \<longrightarrow> positiveInt (property obj f)"
  shows "(\<forall>n. property (object (update clock store mo obj)) n =
            (if find isUpdateStamp (declared mo) = Some n then VDateTime (clock 0)
             else if find isRevision (declared mo) = Some n
             then VInt (fst (toInt (property obj n)) + 1)
             else property obj n))
       \<and> calls (update clock store mo obj) =
           [Update (collectionName mo)
              (qmap_insert ''_id'' (VString (objectId obj))
                 (case find isRevision (declared mo) of
                    None \<Rightarrow> []
                  | Some f \<Rightarrow> [(f, VInt (fst (toInt (property obj f))))]))
              (variantMap (object (update clock store mo obj)))]"
proof -
  have nn: "\<not> isNull obj" using assms(1) by (simp add: isNull_def isNew_def)
  note u = update_runs[OF nn assms(2), of clock store]
  have c: "update_cri (declared mo) (- 1) (property obj) [] =
      (case find isRevision (declared mo) of
         None \<Rightarrow> []
       | Some f \<Rightarrow> [(f, VInt (fst (toInt (property obj f))))])"
    by (simp add: update_cri_def split: option.splits)
  have p: "property (object (update clock store mo obj))
         = update_props (clock 0) (declared mo) False (- 1) (property obj)"
    unfolding u Let_def by (simp add: syncToVariantMap_def)
  have k: "calls (update clock store mo obj) =
           [Update (collectionName mo)
              (qmap_insert ''_id'' (VString (objectId obj))
                 (update_cri (declared mo) (- 1) (property obj) []))
              (variantMap (object (update clock store mo obj)))]"
    unfolding u Let_def by simp
  show ?thesis
    unfolding k p c by (simp add: update_props_def)
qed

theorem update_effects_witness:
  "\<not> isNew (blog_record ''a1'' (VInt 5))
   \<and> property (object (update ticking (answering True 1) blog (blog_record ''a1'' (VInt 5))))
        ''updated_at'' = VDateTime 1000
   \<and> property (object (update ticking (answering True 1) blog (blog_record ''a1'' (VInt 5))))
        ''modified_at'' = VInvalid
   \<and> property (object (update ticking (answering True 1) blog (blog_record ''a1'' (VInt 5))))
        ''lock_revision'' = VInt 6
   \<and> calls (update ticking (answering True 1) blog (blog_record ''a1'' (VInt 5))) =
        [Update ''blog'' [(''_id'', VString ''a1''), (''lock_revision'', VInt 5)]
           (variantMap (object (update ticking (answering True 1) blog
              (blog_record ''a1'' (VInt 5)))))]"
proof -
  let ?r = "blog_record ''a1'' (VInt 5)"
  have h1: "\<not> isNew ?r" by (simp add: blog_record_values)
  have h2: "\<forall>f. find isRevision (declared blog) = Some f \<longrightarrow> positiveInt (property ?r f)"
    by (simp add: blog_revision blog_record_values positiveInt_examples)
  note e = update_effects [OF h1 h2, of ticking "answering True 1"]
  from e have p: "\<And>n. property (object (update ticking (answering True 1) blog ?r)) n =
      (if find isUpdateStamp (declared blog) = Some n then VDateTime (ticking 0)
       else if find isRevision (declared blog) = Some n
       then VInt (fst (toInt (property ?r n)) + 1)
       else property ?r n)" by blast
  show ?thesis
    using h1 e p [of "''updated_at''"] p [of "''modified_at''"] p [of "''lock_revision''"]
    by (simp add: blog_revision blog_stamp blog_record_values collection_names ticking_def)
qed

text \<open>
  The record \<open>a1\<close> has an identity and the revision 0. \<open>update\<close> makes no call on the
  store and leaves the revision at 0.
\<close>

theorem update_invalid_revision_counterexample:
  "\<not> isNew (blog_record ''a1'' (VInt 0))
   \<and> calls (update ticking (answering True 1) blog (blog_record ''a1'' (VInt 0))) = []
   \<and> property (object (update ticking (answering True 1) blog (blog_record ''a1'' (VInt 0))))
        ''lock_revision'' = VInt 0"
  by (simp add: update_def isNull_def isNew_def objectId_def blog_record_def qmap_value_def
      blog_def propertyOffset_def toLowerBA_def UpdatedAt_def ModifiedAt_def LockRevision_def
      char_eval)

text \<open>
  C2. On a record with an identity whose first \<open>lock_revision\<close> property converts to an
  \<open>int\<close> above zero, the criteria of the update carry that property, and the outcome
  follows the store's answer to this call: when it reports a number of affected
  documents other than 1, \<open>update\<close> throws the \<open>KvsException\<close> (a \<open>Throw\<close>, which is no
  \<open>Return\<close>); when it reports 1, \<open>update\<close> returns the boolean the store returned.
\<close>

theorem update_lock_check:
  assumes "\<not> isNew obj"
    and "find isRevision (declared mo) = Some f"
    and "positiveInt (property obj f)"
  shows "\<exists>cri doc.
           calls (update clock store mo obj) = [Update (collectionName mo) cri doc]
         \<and> qmap_value cri f = VInt (fst (toInt (property obj f)))
         \<and> result (update clock store mo obj) =
             (if snd (mongo_update store (collectionName mo) cri doc) \<noteq> 1
              then Throw (''Doc was updated or deleted from table '' @ collectionName mo)
              else Return (fst (mongo_update store (collectionName mo) cri doc)))"
proof -
  have nn: "\<not> isNull obj" using assms(1) by (simp add: isNull_def isNew_def)
  have ok: "\<forall>g. find isRevision (declared mo) = Some g \<longrightarrow> positiveInt (property obj g)"
    using assms(2,3) by simp
  note u = update_runs[OF nn ok, of clock store]
  let ?cri = "qmap_insert ''_id'' (VString (objectId obj))
                   (update_cri (declared mo) (- 1) (property obj) [])"
  let ?doc = "variantMap (object (update clock store mo obj))"
  have "f \<noteq> ''_id''" using assms(2) find_holds id_not_reserved(2) by metis
  then have v: "qmap_value ?cri f = VInt (fst (toInt (property obj f)))"
    using assms(2) by (simp add: qmap_value_insert update_cri_def qmap_value_def)
  have k: "calls (update clock store mo obj) = [Update (collectionName mo) ?cri ?doc]"
    unfolding u Let_def by simp
  have r: "result (update clock store mo obj) =
             (if snd (mongo_update store (collectionName mo) ?cri ?doc) \<noteq> 1
              then Throw (''Doc was updated or deleted from table '' @ collectionName mo)
              else Return (fst (mongo_update store (collectionName mo) ?cri ?doc)))"
    unfolding u Let_def using assms(2) by simp
  from k v r show ?thesis by blast
qed

theorem update_lock_check_witness:
  "\<not> isNew (blog_record ''a1'' (VInt 5))
   \<and> find isRevision (declared blog) = Some ''lock_revision''
   \<and> positiveInt (property (blog_record ''a1'' (VInt 5)) ''lock_revision'')
   \<and> result (update ticking (answering True 0) blog (blog_record ''a1'' (VInt 5)))
        = Throw ''Doc was updated or deleted from table blog''
   \<and> result (update ticking (answering False 1) blog (blog_record ''a1'' (VInt 5)))
        = Return False"
proof -
  let ?r = "blog_record ''a1'' (VInt 5)"
  have h1: "\<not> isNew ?r" by (simp add: blog_record_values)
  have h3: "positiveInt (property ?r ''lock_revision'')"
    by (simp add: blog_record_values positiveInt_examples)
  show ?thesis
    using h1 h3 blog_revision
      update_lock_check [OF h1 blog_revision h3, of ticking "answering True 0"]
      update_lock_check [OF h1 blog_revision h3, of ticking "answering False 1"]
    by (auto simp add: answering_def collection_names)
qed





section \<open>\<open>remove\<close>\<close>

text \<open>\<open>remove\<close> writes no property: \<open>QVariantMap::clear()\<close> empties the document only.\<close>

lemma remove_keeps_properties: "property (object (remove store mo obj)) = property obj"
  by (simp add: remove_def Let_def split: sum.splits prod.splits)

text \<open>
  C3. On a record with an identity whose class declares a \<open>lock_revision\<close> property, when
  \<open>remove\<close> has made its call on the store, the document of the object is empty whatever
  the store reported, and when the store reported a number of affected documents other
  than 1, \<open>remove\<close> throws the \<open>KvsException\<close>: the document is cleared before the check,
  so it is empty on the path that throws too. The document is the \<open>QVariantMap\<close> the
  object inherits.
\<close>

theorem remove_conflict_clears_document:
  assumes "\<not> isNew obj"
    and "find isRevision (declared mo) = Some f"
    and "calls (remove store mo obj) = [Remove coll cri]"
  shows "variantMap (object (remove store mo obj)) = []
       \<and> (snd (mongo_remove store coll cri) \<noteq> 1 \<longrightarrow>
            result (remove store mo obj)
              = Throw (''Doc was updated or deleted from collection '' @ collectionName mo))"
proof -
  have nn: "\<not> isNull obj" using assms(1) by (simp add: isNull_def isNew_def)
  have ok: "positiveInt (property obj f)"
  proof (rule ccontr)
    assume "\<not> positiveInt (property obj f)"
    then have "calls (remove store mo obj) = []"
      using nn remove_loop_Inl[where p = "property obj" and f = f, OF assms(2)]
      by (simp add: remove_def)
    then show False using assms(3) by simp
  qed
  from remove_loop_Inr[where p = "property obj" and f = f, OF assms(2) ok propertyOffset_nonneg,
      of mo "- 1" "[]"]
  obtain ri where r: "0 \<le> ri"
    "remove_loop (propertyOffset mo) (declared mo) (property obj) (- 1) []
       = Inr (ri, qmap_insert f (VInt (fst (toInt (property obj f)))) [])" by blast
  show ?thesis
    using nn r assms(3)
    by (auto simp: remove_def Let_def split: prod.splits if_splits)
qed

lemma remove_blog_calls:
  "calls (remove store blog (loaded_blog_record ''a1'' (VInt 5)))
     = [Remove ''blog'' [(''_id'', VString ''a1''), (''lock_revision'', VInt 5)]]"
  by (simp add: remove_def isNull_def objectId_def loaded_blog_record_def blog_record_def
      qmap_value_def blog_def propertyOffset_def toLowerBA_def LockRevision_def char_eval
      collectionName_def collectionNameOf_def remove_at_end_def Let_def split: prod.splits)

theorem remove_conflict_clears_document_witness:
  "\<not> isNew (loaded_blog_record ''a1'' (VInt 5))
   \<and> find isRevision (declared blog) = Some ''lock_revision''
   \<and> variantMap (loaded_blog_record ''a1'' (VInt 5))
        = [(''_id'', VString ''a1''), (''lock_revision'', VInt 5), (''title'', VString ''draft'')]
   \<and> calls (remove (answering False 0) blog (loaded_blog_record ''a1'' (VInt 5)))
        = [Remove ''blog'' [(''_id'', VString ''a1''), (''lock_revision'', VInt 5)]]
   \<and> snd (mongo_remove (answering False 0) ''blog''
             [(''_id'', VString ''a1''), (''lock_revision'', VInt 5)]) \<noteq> 1
   \<and> result (remove (answering False 0) blog (loaded_blog_record ''a1'' (VInt 5)))
        = Throw ''Doc was updated or deleted from collection blog''
   \<and> variantMap (object (remove (answering False 0) blog (loaded_blog_record ''a1'' (VInt 5))))
        = []
   \<and> variantMap (object (remove (answering True 1) blog (loaded_blog_record ''a1'' (VInt 5))))
        = []"
proof -
  let ?r = "loaded_blog_record ''a1'' (VInt 5)"
  have h1: "\<not> isNew ?r" by (simp add: loaded_blog_record_values)
  have h4: "snd (mongo_remove (answering False 0) ''blog''
             [(''_id'', VString ''a1''), (''lock_revision'', VInt 5)]) \<noteq> 1"
    by (simp add: answering_replies)
  have d: "variantMap ?r
        = [(''_id'', VString ''a1''), (''lock_revision'', VInt 5), (''title'', VString ''draft'')]"
    by (simp add: loaded_blog_record_def)
  show ?thesis
    using h1 h4 d blog_revision remove_blog_calls [of "answering False 0"]
      remove_conflict_clears_document [OF h1 blog_revision remove_blog_calls,
        of "answering False 0"]
      remove_conflict_clears_document [OF h1 blog_revision remove_blog_calls,
        of "answering True 1"]
    by (simp add: collection_names)
qed

text \<open>
  C4. On a record with an identity whose class declares no \<open>lock_revision\<close> property,
  when the store reports a number of affected documents other than 1 for the removal by
  \<open>_id\<close>, \<open>remove\<close> does not throw: it logs the warning, returns the boolean the store
  returned, and leaves the object with an empty document.
\<close>

theorem remove_without_revision_warns:
  assumes "\<not> isNew obj"
    and "find isRevision (declared mo) = None"
    and "snd (mongo_remove store (collectionName mo) [(''_id'', VString (objectId obj))]) \<noteq> 1"
  shows "remove store mo obj
           = \<lparr>object = obj\<lparr>variantMap := []\<rparr>,
              result = Return (fst (mongo_remove store (collectionName mo)
                                      [(''_id'', VString (objectId obj))])),
              calls = [Remove (collectionName mo) [(''_id'', VString (objectId obj))]],
              logs = [deletedWarning (collectionName mo)]\<rparr>"
proof -
  have nn: "\<not> isNull obj" using assms(1) by (simp add: isNull_def isNew_def)
  show ?thesis
    using nn assms(3) remove_loop_none[OF assms(2)]
    by (auto simp: remove_def Let_def split: prod.splits)
qed

theorem remove_without_revision_warns_witness:
  "\<not> isNew (memo_record ''m1'')
   \<and> find isRevision (declared memo) = None
   \<and> variantMap (memo_record ''m1'') \<noteq> []
   \<and> remove (answering False 0) memo (memo_record ''m1'')
       = \<lparr>object = (memo_record ''m1'')\<lparr>variantMap := []\<rparr>,
          result = Return False,
          calls = [Remove ''memo'' [(''_id'', VString ''m1'')]],
          logs = [deletedWarning ''memo'']\<rparr>"
proof -
  let ?r = "memo_record ''m1''"
  have h1: "\<not> isNew ?r" by (simp add: memo_record_values)
  have h3: "snd (mongo_remove (answering False 0) (collectionName memo)
             [(''_id'', VString (objectId ?r))]) \<noteq> 1"
    by (simp add: answering_replies)
  show ?thesis
    using h1 memo_no_revision
      remove_without_revision_warns [OF h1 memo_no_revision h3]
    by (simp add: collection_names memo_record_values answering_replies)
qed

section \<open>\<open>create\<close>\<close>

lemma create_loop_step:
  "create_loop clock k (a # rest) p =
     (if isCreateStamp a then create_loop clock (Suc k) rest (p(a := VDateTime (clock k)))
      else if isRevision a then create_loop clock k rest (p(a := VInt 1))
      else create_loop clock k rest p)"
  by (simp add: isCreateStamp_def isRevision_def Let_def)

lemma create_loop_untouched:
  "n \<notin> set names \<or> (\<not> isCreateStamp n \<and> \<not> isRevision n)
   \<Longrightarrow> create_loop clock k names p n = p n"
  by (induction names arbitrary: k p)
    (auto simp add: create_loop_step simp del: create_loop.simps(2))

lemma create_loop_revision:
  "n \<in> set names \<Longrightarrow> isRevision n \<Longrightarrow> create_loop clock k names p n = VInt 1"
proof (induction names arbitrary: k p)
  case Nil
  then show ?case by simp
next
  case (Cons a names)
  have ns: "\<not> isCreateStamp n" using Cons.prems(2) create_stamp_not_revision by blast
  show ?case
  proof (cases "n \<in> set names")
    case True
    then show ?thesis using Cons.IH Cons.prems(2)
      by (simp add: create_loop_step del: create_loop.simps(2))
  next
    case False
    then have "a = n" using Cons.prems(1) by simp
    then show ?thesis using False Cons.prems(2) ns
      by (simp add: create_loop_step create_loop_untouched del: create_loop.simps(2))
  qed
qed

lemma create_loop_stamp:
  "n \<in> set names \<Longrightarrow> isCreateStamp n
   \<Longrightarrow> \<exists>j. k \<le> j \<and> j < k + length (filter isCreateStamp names)
          \<and> create_loop clock k names p n = VDateTime (clock j)"
proof (induction names arbitrary: k p)
  case Nil
  then show ?case by simp
next
  case (Cons a names)
  have nr: "\<not> isRevision n" using Cons.prems(2) create_stamp_not_revision by blast
  show ?case
  proof (cases "n \<in> set names")
    case True
    show ?thesis
    proof (cases "isCreateStamp a")
      case st: True
      from Cons.IH[OF True Cons.prems(2), of "Suc k" "p(a := VDateTime (clock k))"]
      obtain j where "Suc k \<le> j" "j < Suc k + length (filter isCreateStamp names)"
        "create_loop clock (Suc k) names (p(a := VDateTime (clock k))) n = VDateTime (clock j)"
        by blast
      then show ?thesis using st
        by (auto simp add: create_loop_step simp del: create_loop.simps(2) intro!: exI[of _ j])
    next
      case False
      from Cons.IH[OF True Cons.prems(2), of k]
      have "\<And>q. \<exists>j\<ge>k. j < k + length (filter isCreateStamp names)
          \<and> create_loop clock k names q n = VDateTime (clock j)" by blast
      then show ?thesis using False
        by (simp add: create_loop_step del: create_loop.simps(2))
    qed
  next
    case False
    then have "a = n" using Cons.prems(1) by simp
    then show ?thesis using False Cons.prems(2)
      by (auto simp add: create_loop_step create_loop_untouched simp del: create_loop.simps(2)
          intro!: exI[of _ k])
  qed
qed

lemma create_runs:
  "create clock store mo obj =
     (let p = create_loop clock 0 (declared mo) (property obj);
          doc = syncToVariantMap_loop (declared mo) p [];
          reply = mongo_insert store (collectionName mo) doc
      in \<lparr>object = obj\<lparr>property := (if fst reply then syncToObject_loop mo (snd reply) p
                                        else p),
                          variantMap := snd reply\<rparr>,
          result = Return (fst reply),
          calls = [Insert (collectionName mo) doc],
          logs = []\<rparr>)"
  by (cases obj)
    (simp add: create_def Let_def syncToVariantMap_def syncToObject_def split: prod.splits)

text \<open>
  C6. For every record, \<open>create\<close> makes one call on the store, an insert into the class's
  collection, which takes a document and no criteria. The document has exactly the
  declared properties as keys, with the values \<open>p\<close> the loop has left: a reading of the
  clock taken during the call for every declared property whose lower-cased name is
  \<open>created_at\<close>, \<open>updated_at\<close> or \<open>modified_at\<close>, the \<open>int\<close> 1 for every one whose lower-cased
  name is \<open>lock_revision\<close>, and the former value for every other. \<open>create\<close> returns the
  store's boolean; the object keeps \<open>p\<close> when the insert failed and is synchronised from
  the document the store left when it succeeded.
\<close>

theorem create_effects:
  "\<exists>p doc.
      calls (create clock store mo obj) = [Insert (collectionName mo) doc]
    \<and> (\<forall>n. map_of doc n = (if n \<in> set (declared mo) then Some (p n) else None))
    \<and> (\<forall>n \<in> set (declared mo). isCreateStamp n \<longrightarrow>
          (\<exists>k < length (filter isCreateStamp (declared mo)). p n = VDateTime (clock k)))
    \<and> (\<forall>n \<in> set (declared mo). isRevision n \<longrightarrow> p n = VInt 1)
    \<and> (\<forall>n. n \<notin> set (declared mo) \<or> (\<not> isCreateStamp n \<and> \<not> isRevision n)
            \<longrightarrow> p n = property obj n)
    \<and> result (create clock store mo obj)
        = Return (fst (mongo_insert store (collectionName mo) doc))
    \<and> variantMap (object (create clock store mo obj))
        = snd (mongo_insert store (collectionName mo) doc)
    \<and> property (object (create clock store mo obj))
        = (if fst (mongo_insert store (collectionName mo) doc)
           then syncToObject_loop mo (snd (mongo_insert store (collectionName mo) doc)) p
           else p)"
proof -
  let ?p = "create_loop clock 0 (declared mo) (property obj)"
  let ?doc = "syncToVariantMap_loop (declared mo) ?p []"
  have 1: "calls (create clock store mo obj) = [Insert (collectionName mo) ?doc]"
    by (simp add: create_runs Let_def)
  have 2: "\<forall>n. map_of ?doc n = (if n \<in> set (declared mo) then Some (?p n) else None)"
    by (simp add: map_of_syncToVariantMap_loop)
  have 3: "\<forall>n \<in> set (declared mo). isCreateStamp n \<longrightarrow>
          (\<exists>k < length (filter isCreateStamp (declared mo)). ?p n = VDateTime (clock k))"
  proof (intro ballI impI)
    fix n assume "n \<in> set (declared mo)" "isCreateStamp n"
    from create_loop_stamp[OF this, of 0 clock "property obj"]
    show "\<exists>k < length (filter isCreateStamp (declared mo)). ?p n = VDateTime (clock k)"
      by auto
  qed
  have 4: "\<forall>n \<in> set (declared mo). isRevision n \<longrightarrow> ?p n = VInt 1"
    by (simp add: create_loop_revision)
  have 5: "\<forall>n. n \<notin> set (declared mo) \<or> (\<not> isCreateStamp n \<and> \<not> isRevision n)
            \<longrightarrow> ?p n = property obj n"
    using create_loop_untouched by blast
  have 6: "result (create clock store mo obj)
        = Return (fst (mongo_insert store (collectionName mo) ?doc))"
    by (simp add: create_runs Let_def)
  have 7: "variantMap (object (create clock store mo obj))
        = snd (mongo_insert store (collectionName mo) ?doc)"
    by (simp add: create_runs Let_def)
  have 8: "property (object (create clock store mo obj))
        = (if fst (mongo_insert store (collectionName mo) ?doc)
           then syncToObject_loop mo (snd (mongo_insert store (collectionName mo) ?doc)) ?p
           else ?p)"
    by (simp add: create_runs Let_def)
  show ?thesis
    by (rule exI[where x = ?p], rule exI[where x = ?doc]) (intro conjI 1 2 3 4 5 6 7 8)
qed

theorem create_effects_witness:
  "''created_at'' \<in> set (declared blog) \<and> isCreateStamp ''created_at''
   \<and> ''lock_revision'' \<in> set (declared blog) \<and> isRevision ''lock_revision''
   \<and> (\<exists>doc. calls (create ticking (answering True 1) blog (blog_record [] (VInt 7)))
               = [Insert ''blog'' doc]
            \<and> (\<exists>k<3. map_of doc ''created_at'' = Some (VDateTime (ticking k)))
            \<and> map_of doc ''lock_revision'' = Some (VInt 1)
            \<and> map_of doc ''title'' = Some (VString ''draft''))
   \<and> result (create ticking (answering True 1) blog (blog_record [] (VInt 7))) = Return True"
proof -
  let ?out = "create ticking (answering True 1) blog (blog_record [] (VInt 7))"
  from create_effects [of ticking "answering True 1" blog "blog_record [] (VInt 7)"]
  obtain p doc where
    c: "calls ?out = [Insert (collectionName blog) doc]" and
    m: "\<forall>n. map_of doc n = (if n \<in> set (declared blog) then Some (p n) else None)" and
    s: "\<forall>n \<in> set (declared blog). isCreateStamp n \<longrightarrow>
          (\<exists>k < length (filter isCreateStamp (declared blog)). p n = VDateTime (ticking k))" and
    r: "\<forall>n \<in> set (declared blog). isRevision n \<longrightarrow> p n = VInt 1" and
    u: "\<forall>n. n \<notin> set (declared blog) \<or> (\<not> isCreateStamp n \<and> \<not> isRevision n)
            \<longrightarrow> p n = property (blog_record [] (VInt 7)) n" and
    t: "result ?out = Return (fst (mongo_insert (answering True 1) (collectionName blog) doc))"
    by blast
  have 1: "calls ?out = [Insert ''blog'' doc]" using c by (simp add: collection_names)
  have 2: "\<exists>k<3. map_of doc ''created_at'' = Some (VDateTime (ticking k))"
    using m s blog_names(1,2) by (simp add: blog_create_stamps)
  have 3: "map_of doc ''lock_revision'' = Some (VInt 1)"
    using m r blog_names(3,4) by simp
  have 4: "map_of doc ''title'' = Some (VString ''draft'')"
    using m u blog_names(5,6,7) by (simp add: blog_record_values)
  have 5: "result ?out = Return True" using t by (simp add: answering_replies)
  from 1 2 3 4 have "\<exists>doc. calls ?out = [Insert ''blog'' doc]
            \<and> (\<exists>k<3. map_of doc ''created_at'' = Some (VDateTime (ticking k)))
            \<and> map_of doc ''lock_revision'' = Some (VInt 1)
            \<and> map_of doc ''title'' = Some (VString ''draft'')" by blast
  then show ?thesis using 5 blog_names(1,2,3,4) by simp
qed

section \<open>Synchronising and \<open>isModified\<close>\<close>

lemma indexIn_range:
  "name \<in> set ns \<Longrightarrow> i \<le> indexIn ns name i \<and> indexIn ns name i < i + int (length ns)"
proof (induction ns arbitrary: i)
  case Nil
  then show ?case by simp
next
  case (Cons a ns)
  show ?case
  proof (cases "a = name")
    case True
    then show ?thesis by simp
  next
    case False
    then have "name \<in> set ns" using Cons.prems by simp
    from Cons.IH[OF this, of "i + 1"] show ?thesis using False by simp
  qed
qed

lemma indexIn_absent: "name \<notin> set ns \<Longrightarrow> indexIn ns name i = - 1"
  by (induction ns arbitrary: i) auto

lemma indexOfProperty_declared:
  "(propertyOffset mo \<le> indexOfProperty mo name) = (name \<in> set (declared mo))"
proof (cases "name \<in> set (declared mo)")
  case True
  from indexIn_range[OF True, of "propertyOffset mo"] propertyOffset_nonneg[of mo]
  show ?thesis using True by (simp add: indexOfProperty_def Let_def)
next
  case False
  then have d: "indexIn (declared mo) name (propertyOffset mo) = - 1"
    by (rule indexIn_absent)
  have "indexIn (inherited mo) name 0 < propertyOffset mo"
  proof (cases "name \<in> set (inherited mo)")
    case True
    from indexIn_range[OF True, of 0] show ?thesis by (simp add: propertyOffset_def)
  next
    case False
    then show ?thesis by (simp add: indexIn_absent propertyOffset_def)
  qed
  then show ?thesis using False d by (simp add: indexOfProperty_def Let_def)
qed

lemma syncToObject_loop_step:
  "syncToObject_loop mo ((name, v) # it) p =
     (if name \<in> set (declared mo) then syncToObject_loop mo it (p(name := v))
      else syncToObject_loop mo it p)"
  by (simp add: indexOfProperty_declared)

lemma isModified_loop_step:
  "isModified_loop mo p ((name, v) # it) =
     (if name \<in> set (declared mo) then (if v \<noteq> p name then True else isModified_loop mo p it)
      else isModified_loop mo p it)"
  by (simp add: indexOfProperty_declared)

lemma syncToObject_loop_same:
  "\<forall>(k, v) \<in> set d. k \<in> set (declared mo) \<longrightarrow> v = p k \<Longrightarrow> syncToObject_loop mo d p = p"
proof (induction d)
  case Nil
  then show ?case by simp
next
  case (Cons a d)
  obtain k v where a: "a = (k, v)" by (cases a)
  have "k \<in> set (declared mo) \<Longrightarrow> p(k := v) = p" using Cons.prems a by auto
  then show ?case using Cons a
    by (auto simp add: syncToObject_loop_step simp del: syncToObject_loop.simps(2))
qed

lemma syncToObject_loop_absent:
  "k \<notin> set (map fst d) \<Longrightarrow> syncToObject_loop mo d p k = p k"
proof (induction d arbitrary: p)
  case Nil
  then show ?case by simp
next
  case (Cons a d)
  obtain k' v' where a: "a = (k', v')" by (cases a)
  then have "k' \<noteq> k" "k \<notin> set (map fst d)" using Cons.prems by auto
  then show ?case using Cons.IH a
    by (simp add: syncToObject_loop_step del: syncToObject_loop.simps(2))
qed

lemma syncToObject_loop_reflects:
  "distinct (map fst d) \<Longrightarrow> (k, v) \<in> set d \<Longrightarrow> k \<in> set (declared mo)
   \<Longrightarrow> syncToObject_loop mo d p k = v"
proof (induction d arbitrary: p)
  case Nil
  then show ?case by simp
next
  case (Cons a d)
  obtain k' v' where a: "a = (k', v')" by (cases a)
  show ?case
  proof (cases "(k, v) = a")
    case True
    then have "fst a = k" by auto
    moreover have "fst a \<notin> set (map fst d)" using Cons.prems(1) by simp
    ultimately have "k \<notin> set (map fst d)" by simp
    then show ?thesis using True [symmetric] Cons.prems(3)
      by (simp add: syncToObject_loop_step syncToObject_loop_absent
          del: syncToObject_loop.simps(2))
  next
    case False
    then have "(k, v) \<in> set d" "distinct (map fst d)" using Cons.prems by auto
    then show ?thesis using Cons.IH Cons.prems(3) a
      by (simp add: syncToObject_loop_step del: syncToObject_loop.simps(2))
  qed
qed

lemma isModified_loop_same:
  "\<forall>(k, v) \<in> set d. k \<in> set (declared mo) \<longrightarrow> v = p k \<Longrightarrow> \<not> isModified_loop mo p d"
proof (induction d)
  case Nil
  then show ?case by simp
next
  case (Cons a d)
  obtain k v where a: "a = (k, v)" by (cases a)
  show ?case using Cons a
    by (auto simp add: isModified_loop_step simp del: isModified_loop.simps(2))
qed

lemma not_modified_after_syncToVariantMap: "\<not> isModified mo (syncToVariantMap mo obj)"
proof -
  have "\<forall>(k, v) \<in> set (syncToVariantMap_loop (declared mo) (property obj) []).
          k \<in> set (declared mo) \<longrightarrow> v = property obj k"
    using set_syncToVariantMap_loop[of _ _ "declared mo" "property obj" "[]"] by auto
  then show ?thesis
    by (simp add: isModified_def syncToVariantMap_def isModified_loop_same)
qed

lemma not_modified_after_syncToObject:
  assumes "qmap_wf (variantMap obj)"
  shows "\<not> isModified mo (syncToObject mo obj)"
proof -
  let ?p = "syncToObject_loop mo (variantMap obj) (property obj)"
  have d: "distinct (map fst (variantMap obj))" using assms by (simp add: qmap_wf_def)
  have "\<forall>(k, v) \<in> set (variantMap obj). k \<in> set (declared mo) \<longrightarrow> v = ?p k"
    using syncToObject_loop_reflects[OF d] by auto
  then show ?thesis
    by (simp add: isModified_def syncToObject_def isModified_loop_same)
qed

lemma update_returns_true:
  "result (update clock store mo obj) = Return True
   \<Longrightarrow> \<exists>o1. object (update clock store mo obj) = syncToVariantMap mo o1"
  by (auto simp: update_def Let_def split: if_splits sum.splits prod.splits)

lemma create_returns_true:
  assumes "result (create clock store mo obj) = Return True"
  shows "\<exists>o1 doc. object (create clock store mo obj) = syncToObject mo o1
          \<and> variantMap o1 = snd (mongo_insert store (collectionName mo) doc) \<and> qmap_wf doc"
proof -
  let ?o1 = "obj\<lparr>property := create_loop clock 0 (declared mo) (property obj)\<rparr>"
  let ?doc = "variantMap (syncToVariantMap mo ?o1)"
  let ?o3 = "(syncToVariantMap mo ?o1)
               \<lparr>variantMap := snd (mongo_insert store (collectionName mo) ?doc)\<rparr>"
  have "qmap_wf []" by (simp add: qmap_wf_def)
  then have wf: "qmap_wf ?doc"
    by (simp add: syncToVariantMap_def qmap_wf_syncToVariantMap_loop)
  have "object (create clock store mo obj) = syncToObject mo ?o3"
    using assms by (auto simp: create_def Let_def split: prod.splits if_splits)
  moreover have "variantMap ?o3 = snd (mongo_insert store (collectionName mo) ?doc)" by simp
  ultimately show ?thesis using wf by blast
qed

text \<open>
  C9. \<open>syncToObject\<close> after \<open>syncToVariantMap\<close> leaves every property with the value it
  had. \<open>isModified\<close> is false on the object \<open>create\<close> leaves when it returned true, on the
  object \<open>update\<close> leaves when it returned true, and on every record without identity.
  The store is taken to answer an insert with a \<open>QVariantMap\<close>, that is with keys in
  strictly ascending order, when it is given one.
\<close>

theorem sync_round_trip_and_isModified:
  assumes "\<forall>coll doc. qmap_wf doc \<longrightarrow> qmap_wf (snd (mongo_insert store coll doc))"
  shows "property (syncToObject mo (syncToVariantMap mo obj)) = property obj
       \<and> (result (create clock store mo obj) = Return True
            \<longrightarrow> \<not> isModified mo (object (create clock store mo obj)))
       \<and> (result (update clock store mo obj) = Return True
            \<longrightarrow> \<not> isModified mo (object (update clock store mo obj)))
       \<and> (isNew obj \<longrightarrow> \<not> isModified mo obj)"
proof (intro conjI impI)
  have "\<forall>(k, v) \<in> set (syncToVariantMap_loop (declared mo) (property obj) []).
          k \<in> set (declared mo) \<longrightarrow> v = property obj k"
    using set_syncToVariantMap_loop[of _ _ "declared mo" "property obj" "[]"] by auto
  then show "property (syncToObject mo (syncToVariantMap mo obj)) = property obj"
    by (simp add: syncToObject_def syncToVariantMap_def syncToObject_loop_same)
next
  assume "result (create clock store mo obj) = Return True"
  from create_returns_true[OF this] obtain o1 doc where
    o: "object (create clock store mo obj) = syncToObject mo o1"
       "variantMap o1 = snd (mongo_insert store (collectionName mo) doc)" "qmap_wf doc"
    by blast
  then have "qmap_wf (variantMap o1)" using assms by simp
  then show "\<not> isModified mo (object (create clock store mo obj))"
    unfolding o(1) by (rule not_modified_after_syncToObject)
next
  assume "result (update clock store mo obj) = Return True"
  from update_returns_true[OF this] obtain o1 where
    "object (update clock store mo obj) = syncToVariantMap mo o1" by blast
  then show "\<not> isModified mo (object (update clock store mo obj))"
    by (simp add: not_modified_after_syncToVariantMap)
next
  assume "isNew obj"
  then show "\<not> isModified mo obj" by (simp add: isModified_def)
qed

lemma answering_wf:
  "\<forall>coll doc. qmap_wf doc \<longrightarrow> qmap_wf (snd (mongo_insert (answering ret n) coll doc))"
  by (simp add: answering_replies qmap_wf_insert)

lemma created_blog_identity:
  "property (object (create ticking (answering True 1) blog (blog_record [] (VInt 7)))) ''_id''
     = VString ''65f0''"
proof -
  let ?p = "create_loop ticking 0 (declared blog) (property (blog_record [] (VInt 7)))"
  let ?doc = "qmap_insert ''_id'' (VString ''65f0'') (syncToVariantMap_loop (declared blog) ?p [])"
  have "qmap_wf []" by (simp add: qmap_wf_def)
  then have "qmap_wf ?doc" by (simp add: qmap_wf_insert qmap_wf_syncToVariantMap_loop)
  then have d: "distinct (map fst ?doc)" by (simp add: qmap_wf_def)
  have "map_of ?doc ''_id'' = Some (VString ''65f0'')" by (simp add: map_of_qmap_insert)
  then have i: "(''_id'', VString ''65f0'') \<in> set ?doc" by (rule map_of_SomeD)
  have k: "''_id'' \<in> set (declared blog)" by (simp add: blog_def)
  have "syncToObject_loop blog ?doc ?p ''_id'' = VString ''65f0''"
    using d i k by (rule syncToObject_loop_reflects)
  then show ?thesis
    by (simp add: create_runs Let_def answering_replies collection_names)
qed

theorem sync_round_trip_and_isModified_witness:
  "isNew (blog_record [] (VInt 7))
   \<and> \<not> isModified blog (blog_record [] (VInt 7))
   \<and> result (create ticking (answering True 1) blog (blog_record [] (VInt 7))) = Return True
   \<and> \<not> isNew (object (create ticking (answering True 1) blog (blog_record [] (VInt 7))))
   \<and> \<not> isModified blog
         (object (create ticking (answering True 1) blog (blog_record [] (VInt 7))))
   \<and> result (update ticking (answering True 1) blog (blog_record ''a1'' (VInt 5))) = Return True
   \<and> \<not> isNew (object (update ticking (answering True 1) blog (blog_record ''a1'' (VInt 5))))
   \<and> \<not> isModified blog
         (object (update ticking (answering True 1) blog (blog_record ''a1'' (VInt 5))))
   \<and> property (syncToObject blog (syncToVariantMap blog (blog_record ''a1'' (VInt 5))))
        = property (blog_record ''a1'' (VInt 5))"
proof -
  let ?new = "blog_record [] (VInt 7)"
  let ?old = "blog_record ''a1'' (VInt 5)"
  note t = sync_round_trip_and_isModified
    [where store = "answering True 1" and mo = blog and clock = ticking, OF answering_wf]
  have n: "isNew ?new" by (simp add: blog_record_values)
  have c: "result (create ticking (answering True 1) blog ?new) = Return True"
    by (simp add: create_runs Let_def answering_replies)
  have ci: "\<not> isNew (object (create ticking (answering True 1) blog ?new))"
    using created_blog_identity by (simp add: isNew_def objectId_def)
  have nn: "\<not> isNull ?old" by (simp add: isNull_def blog_record_values)
  have ok: "\<forall>f. find isRevision (declared blog) = Some f \<longrightarrow> positiveInt (property ?old f)"
    by (simp add: blog_revision blog_record_values positiveInt_examples)
  note r = update_runs [OF nn ok, of ticking "answering True 1"]
  have u: "result (update ticking (answering True 1) blog ?old) = Return True"
    unfolding r Let_def by (simp add: answering_replies)
  have ui: "\<not> isNew (object (update ticking (answering True 1) blog ?old))"
    unfolding r Let_def
    by (simp add: isNew_def syncToVariantMap_def objectId_def update_props_def
        blog_revision blog_stamp blog_record_values)
  show ?thesis
    using n c ci u ui t [of ?new] t [of ?old] by simp
qed

end
